theory Spec2Isabelle
  imports Main "HOL-Library.Sublist"
begin

section \<open>Chat messages (package entity)\<close>

text \<open>
  \<^verbatim>\<open>entity.ChatMessage\<close> and \<^verbatim>\<open>entity.ChatMessageRequest\<close>. A \<^verbatim>\<open>time.Time\<close> is
  the number of nanoseconds since the Unix epoch, in UTC. The \<^verbatim>\<open>validate\<close> struct tags
  (\<^verbatim>\<open>required,min=1,max=1000\<close> on both \<^verbatim>\<open>Text\<close> fields) are annotations: nothing in the
  repository runs a validator over them, so they do not appear in any function below.
\<close>

record ChatMessage =
  ID :: string
  UserID :: string
  Text :: string
  CreatedAt :: nat

datatype ChatMessageRequest = ChatMessageRequest (req_Text: string)

text \<open>
  \<^verbatim>\<open>NewChatMessage(req, userID)\<close>. The two calls into the environment,
  \<^verbatim>\<open>uuid.New().String()\<close> and \<^verbatim>\<open>time.Now().UTC()\<close>, are the arguments \<open>new_uuid\<close> and
  \<open>now\<close>: the values those calls return at this construction.
\<close>

definition NewChatMessage :: "ChatMessageRequest \<Rightarrow> string \<Rightarrow> string \<Rightarrow> nat \<Rightarrow> ChatMessage" where
  "NewChatMessage req userID new_uuid now =
     \<lparr>ID = new_uuid, UserID = userID, Text = req_Text req, CreatedAt = now\<rparr>"

section \<open>The message store (repository.ChatRepository, usecase.ChatUseCase)\<close>

text \<open>
  A row of the table \<^verbatim>\<open>chat_messages\<close>. The column \<^verbatim>\<open>created_at\<close> holds
  \<^verbatim>\<open>msg.CreatedAt.Format(time.RFC3339)\<close>, a text with a resolution of one second; for UTC
  times its text order is the order of the seconds, so the column is modelled by the
  number of whole seconds.
\<close>

record row =
  row_id :: string
  row_user_id :: string
  row_text :: string
  row_created_at :: nat

definition nanos_per_second :: nat where
  "nanos_per_second = 1000000000"

definition to_row :: "ChatMessage \<Rightarrow> row" where
  "to_row msg =
     \<lparr>row_id = ID msg, row_user_id = UserID msg, row_text = Text msg,
      row_created_at = CreatedAt msg div nanos_per_second\<rparr>"

definition from_row :: "row \<Rightarrow> ChatMessage" where
  "from_row r =
     \<lparr>ID = row_id r, UserID = row_user_id r, Text = row_text r,
      CreatedAt = row_created_at r * nanos_per_second\<rparr>"

datatype store_error = ExecFailed | RowsAffectedFailed | NoRowsAffected | QueryFailed | ScanFailed

text \<open>
  What the database driver answers to the \<^verbatim>\<open>INSERT\<close>: \<^verbatim>\<open>ExecContext\<close> fails, or it
  succeeds and \<^verbatim>\<open>RowsAffected\<close> fails, or it reports a count. The answer is an input of
  the model. A statement that ran with a count other than 0 has appended the row.
\<close>

datatype exec_outcome = ExecError | RowsAffectedError | RowsAffected int

definition repo_SaveMessage :: "row list \<Rightarrow> ChatMessage \<Rightarrow> exec_outcome \<Rightarrow> store_error option \<times> row list" where
  "repo_SaveMessage t msg ex =
     (case ex of
        ExecError \<Rightarrow> (Some ExecFailed, t)
      | RowsAffectedError \<Rightarrow> (Some RowsAffectedFailed, t @ [to_row msg])
      | RowsAffected rows \<Rightarrow>
          if rows = 0 then (Some NoRowsAffected, t) else (None, t @ [to_row msg]))"

text \<open>
  \<^verbatim>\<open>SELECT ... ORDER BY created_at DESC LIMIT ? OFFSET ?\<close>. A negative limit is no limit
  and a negative offset is 0, as in SQLite. The table is the list of its rows in insertion
  order. Rows with a later \<^verbatim>\<open>created_at\<close> come first, and rows with equal
  \<^verbatim>\<open>created_at\<close> come in their insertion order, as SQLite returns them: the sort is
  stable, so it is run on the reversed table and its result reversed.
\<close>

definition query_recent :: "row list \<Rightarrow> int \<Rightarrow> int \<Rightarrow> row list" where
  "query_recent t limit offset =
     (let ordered = rev (sort_key row_created_at (rev t));
          skipped = drop (nat offset) ordered
      in if limit < 0 then skipped else take (nat limit) skipped)"

text \<open>
  What the driver answers to the query: \<^verbatim>\<open>QueryContext\<close> fails, or the row with
  index \<open>k\<close> of the result fails in \<^verbatim>\<open>rows.Scan\<close> or \<^verbatim>\<open>time.Parse\<close>, or every row is
  read.
\<close>

datatype query_outcome = QueryError | ScanError nat | RowsOk

definition repo_GetMessages :: "row list \<Rightarrow> int \<Rightarrow> int \<Rightarrow> query_outcome \<Rightarrow> store_error + ChatMessage list" where
  "repo_GetMessages t limit offset q =
     (case q of
        QueryError \<Rightarrow> Inl QueryFailed
      | ScanError k \<Rightarrow>
          if k < length (query_recent t limit offset) then Inl ScanFailed
          else Inr (map from_row (query_recent t limit offset))
      | RowsOk \<Rightarrow> Inr (map from_row (query_recent t limit offset)))"

text \<open>
  \<^verbatim>\<open>DELETE FROM chat_messages WHERE created_at < datetime('now', ?)\<close>: the retention
  sweep (\<^verbatim>\<open>CleanOldMessages\<close> and the trigger \<^verbatim>\<open>clean_old_chat\<close>); \<open>cutoff\<close> is the
  instant \<^verbatim>\<open>datetime\<close> computes, in seconds. The comparison is one of texts: the column
  holds \<^verbatim>\<open>2006-01-02T15:04:05Z\<close> and \<^verbatim>\<open>datetime\<close> yields \<^verbatim>\<open>2006-01-02 15:04:05\<close>. The
  two agree in form up to the date, and after equal dates the stored \<^verbatim>\<open>T\<close> is greater
  than the space, so a row is deleted exactly when its day is before the day of the
  cutoff.
\<close>

definition seconds_per_day :: nat where
  "seconds_per_day = 86400"

definition repo_CleanOldMessages :: "row list \<Rightarrow> nat \<Rightarrow> row list" where
  "repo_CleanOldMessages t cutoff =
     filter (\<lambda>r. \<not> row_created_at r div seconds_per_day < cutoff div seconds_per_day) t"

text \<open>The use case logs and hands the call on to the repository.\<close>

definition SaveMessage :: "row list \<Rightarrow> ChatMessage \<Rightarrow> exec_outcome \<Rightarrow> store_error option \<times> row list" where
  "SaveMessage t msg ex = repo_SaveMessage t msg ex"

definition GetMessages :: "row list \<Rightarrow> int \<Rightarrow> int \<Rightarrow> query_outcome \<Rightarrow> store_error + ChatMessage list" where
  "GetMessages t limit offset q = repo_GetMessages t limit offset q"

section \<open>Channels\<close>

text \<open>
  A buffered Go channel of \<^verbatim>\<open>*entity.ChatMessage\<close>: the queued values, the capacity and
  whether it has been closed.
\<close>

record chan =
  buf :: "ChatMessage list"
  cap :: nat
  closed :: bool

text \<open>
  What stops the coordination loop: a runtime panic, or a blocking send that waits for a
  receiver.
\<close>

datatype fault = NilDereference | SendOnClosedChannel | CloseOfClosedChannel | Blocked

definition make_chan :: "nat \<Rightarrow> chan" where
  "make_chan n = \<lparr>buf = [], cap = n, closed = False\<rparr>"

text \<open>\<^verbatim>\<open>ch <- v\<close>\<close>

definition chan_send :: "chan \<Rightarrow> ChatMessage \<Rightarrow> fault + chan" where
  "chan_send ch v =
     (if closed ch then Inl SendOnClosedChannel
      else if length (buf ch) < cap ch then Inr (ch\<lparr>buf := buf ch @ [v]\<rparr>)
      else Inl Blocked)"

text \<open>\<^verbatim>\<open>select { case ch <- v: default: }\<close>; \<open>None\<close> is the default branch.\<close>

definition chan_try_send :: "chan \<Rightarrow> ChatMessage \<Rightarrow> fault + chan option" where
  "chan_try_send ch v =
     (if closed ch then Inl SendOnClosedChannel
      else if length (buf ch) < cap ch then Inr (Some (ch\<lparr>buf := buf ch @ [v]\<rparr>))
      else Inr None)"

text \<open>\<^verbatim>\<open>close(ch)\<close>\<close>

definition chan_close :: "chan \<Rightarrow> fault + chan" where
  "chan_close ch = (if closed ch then Inl CloseOfClosedChannel else Inr (ch\<lparr>closed := True\<rparr>))"

text \<open>
  \<^verbatim>\<open>v, ok := <-ch\<close>: a queued value, or \<open>ok = false\<close> on a closed and drained channel
  (\<open>Some (None, ch)\<close>), or \<open>None\<close> while the receiver has to wait.
\<close>

definition chan_recv :: "chan \<Rightarrow> (ChatMessage option \<times> chan) option" where
  "chan_recv ch =
     (case buf ch of
        v # rest \<Rightarrow> Some (Some v, ch\<lparr>buf := rest\<rparr>)
      | [] \<Rightarrow> if closed ch then Some (None, ch) else None)"

section \<open>Clients and the hub (package websocket)\<close>

text \<open>
  A \<^verbatim>\<open>*Client\<close> is an address (a natural number); \<open>heap\<close> holds the \<^verbatim>\<open>Client\<close> objects
  that exist. Each client owns its \<^verbatim>\<open>send\<close> channel, so the channel is kept inside the
  object.
\<close>

record Client =
  send :: chan
  userID :: string

text \<open>
  The state: \<open>clients\<close> is \<^verbatim>\<open>Hub.clients\<close>, \<open>heap\<close> the clients, \<open>table\<close> the table
  \<^verbatim>\<open>chat_messages\<close>. \<open>delivered\<close> is a history variable, not program state: for every
  client, the values sent on its \<^verbatim>\<open>send\<close> channel so far, in order, each marked with the
  branch of \<^verbatim>\<open>Hub.Run\<close> that sent it.
\<close>

datatype delivery = Replayed ChatMessage | Fanned ChatMessage

record world =
  clients :: "nat \<rightharpoonup> bool"
  heap :: "nat \<rightharpoonup> Client"
  table :: "row list"
  delivered :: "nat \<Rightarrow> delivery list"

definition NewHub :: "row list \<Rightarrow> world" where
  "NewHub t = \<lparr>clients = Map.empty, heap = Map.empty, table = t, delivered = (\<lambda>c. [])\<rparr>"

text \<open>\<^verbatim>\<open>client.send <- msg\<close> of the register branch.\<close>

definition client_send :: "world \<Rightarrow> nat \<Rightarrow> ChatMessage \<Rightarrow> fault + world" where
  "client_send s c msg =
     (case heap s c of
        None \<Rightarrow> Inl NilDereference
      | Some cl \<Rightarrow>
          (case chan_send (send cl) msg of
             Inl f \<Rightarrow> Inl f
           | Inr ch \<Rightarrow>
               Inr (s\<lparr>heap := (heap s)(c \<mapsto> cl\<lparr>send := ch\<rparr>),
                      delivered := (delivered s)(c := delivered s c @ [Replayed msg])\<rparr>)))"

text \<open>\<^verbatim>\<open>for _, msg := range messages { client.send <- msg }\<close>\<close>

fun send_all :: "world \<Rightarrow> nat \<Rightarrow> ChatMessage list \<Rightarrow> fault + world" where
  "send_all s c [] = Inr s"
| "send_all s c (msg # messages) =
     (case client_send s c msg of
        Inl f \<Rightarrow> Inl f
      | Inr s' \<Rightarrow> send_all s' c messages)"

text \<open>\<^verbatim>\<open>case client := <-h.register\<close>\<close>

definition Run_register :: "world \<Rightarrow> nat \<Rightarrow> query_outcome \<Rightarrow> fault + world" where
  "Run_register s client q =
     (let s1 = s\<lparr>clients := (clients s)(client \<mapsto> True)\<rparr> in
      case GetMessages (table s1) 100 0 q of
        Inl err \<Rightarrow> Inr s1
      | Inr messages \<Rightarrow> send_all s1 client messages)"

text \<open>\<^verbatim>\<open>close(client.send)\<close>\<close>

definition client_close :: "world \<Rightarrow> nat \<Rightarrow> fault + world" where
  "client_close s c =
     (case heap s c of
        None \<Rightarrow> Inl NilDereference
      | Some cl \<Rightarrow>
          (case chan_close (send cl) of
             Inl f \<Rightarrow> Inl f
           | Inr ch \<Rightarrow> Inr (s\<lparr>heap := (heap s)(c \<mapsto> cl\<lparr>send := ch\<rparr>)\<rparr>)))"

text \<open>\<^verbatim>\<open>case client := <-h.unregister\<close>\<close>

definition Run_unregister :: "world \<Rightarrow> nat \<Rightarrow> fault + world" where
  "Run_unregister s client =
     (case clients s client of
        None \<Rightarrow> Inr s
      | Some ok \<Rightarrow> client_close (s\<lparr>clients := (clients s)(client := None)\<rparr>) client)"

text \<open>
  The body of the fan-out loop for one client: the non-blocking send, and in the default
  branch \<^verbatim>\<open>close(client.send)\<close> followed by \<^verbatim>\<open>delete(h.clients, client)\<close>.
\<close>

definition deliver :: "world \<Rightarrow> nat \<Rightarrow> ChatMessage \<Rightarrow> fault + world" where
  "deliver s c message =
     (case heap s c of
        None \<Rightarrow> Inl NilDereference
      | Some cl \<Rightarrow>
          (case chan_try_send (send cl) message of
             Inl f \<Rightarrow> Inl f
           | Inr (Some ch) \<Rightarrow>
               Inr (s\<lparr>heap := (heap s)(c \<mapsto> cl\<lparr>send := ch\<rparr>),
                      delivered := (delivered s)(c := delivered s c @ [Fanned message])\<rparr>)
           | Inr None \<Rightarrow>
               (case client_close s c of
                  Inl f \<Rightarrow> Inl f
                | Inr s' \<Rightarrow> Inr (s'\<lparr>clients := (clients s')(c := None)\<rparr>))))"

text \<open>
  \<^verbatim>\<open>for client := range h.clients\<close>. Go visits the keys of a map in an order it does not
  fix; the order of this run is the list \<open>order\<close>.
\<close>

fun fanout :: "world \<Rightarrow> ChatMessage \<Rightarrow> nat list \<Rightarrow> fault + world" where
  "fanout s message [] = Inr s"
| "fanout s message (c # order) =
     (case deliver s c message of
        Inl f \<Rightarrow> Inl f
      | Inr s' \<Rightarrow> fanout s' message order)"

text \<open>\<^verbatim>\<open>case message := <-h.broadcast\<close>\<close>

definition Run_broadcast :: "world \<Rightarrow> ChatMessage \<Rightarrow> exec_outcome \<Rightarrow> nat list \<Rightarrow> fault + world" where
  "Run_broadcast s message ex order =
     (case SaveMessage (table s) message ex of
        (Some err, t) \<Rightarrow> Inr (s\<lparr>table := t\<rparr>)
      | (None, t) \<Rightarrow> fanout (s\<lparr>table := t\<rparr>) message order)"

text \<open>
  \<^verbatim>\<open>ServeWs\<close> after a successful upgrade: a new \<^verbatim>\<open>Client\<close> at the address \<open>c\<close> with
  \<^verbatim>\<open>send: make(chan *entity.ChatMessage, 256)\<close>, handed to the hub on \<^verbatim>\<open>hub.register\<close>. The
  register channel is unbuffered and the pumps start after the hand-over, so the hub's
  register branch runs on the client as it was made.
\<close>

definition ServeWs :: "world \<Rightarrow> nat \<Rightarrow> string \<Rightarrow> query_outcome \<Rightarrow> fault + world" where
  "ServeWs s c uid q =
     Run_register (s\<lparr>heap := (heap s)(c \<mapsto> \<lparr>send = make_chan 256, userID = uid\<rparr>)\<rparr>) c q"

text \<open>One receive of \<^verbatim>\<open>writePump\<close> from \<^verbatim>\<open>c.send\<close>.\<close>

definition writePump_recv :: "world \<Rightarrow> nat \<Rightarrow> world" where
  "writePump_recv s c =
     (case heap s c of
        None \<Rightarrow> s
      | Some cl \<Rightarrow>
          (case chan_recv (send cl) of
             None \<Rightarrow> s
           | Some (v, ch) \<Rightarrow> s\<lparr>heap := (heap s)(c \<mapsto> cl\<lparr>send := ch\<rparr>)\<rparr>))"

section \<open>The inbound loop (Client.readPump)\<close>

text \<open>
  What \<^verbatim>\<open>c.conn.ReadJSON(&msgReq)\<close> returns, one entry per iteration: an error, or a
  decoded request together with the two values \<^verbatim>\<open>NewChatMessage\<close> draws from the
  environment. The pump's output is what it sends to the hub, in order.
\<close>

datatype inbound = ReadError | Frame ChatMessageRequest string nat

datatype submission = ToBroadcast ChatMessage | ToUnregister nat

fun readPump :: "nat \<Rightarrow> Client \<Rightarrow> inbound list \<Rightarrow> submission list" where
  "readPump c cl [] = []"
| "readPump c cl (ReadError # rest) = [ToUnregister c]"
| "readPump c cl (Frame msgReq new_uuid now # rest) =
     ToBroadcast (NewChatMessage msgReq (userID cl) new_uuid now) # readPump c cl rest"

section \<open>Runs of the system\<close>

text \<open>
  The events, in the order in which they take effect: a connection (\<^verbatim>\<open>ServeWs\<close> and the
  hub's register branch), the hub's unregister and broadcast branches, a receive of some
  \<^verbatim>\<open>writePump\<close>, and a retention sweep of the store. The loop is one goroutine, so its
  branches run one at a time; a branch is one step, and the receives of the pumps take
  effect between steps. A send of the register branch that finds the buffer full is the
  outcome \<open>Blocked\<close> of the step.
\<close>

datatype event =
    Connect nat string query_outcome
  | Unregister nat
  | Broadcast ChatMessage exec_outcome "nat list"
  | Drain nat
  | Trim nat

fun step :: "world \<Rightarrow> event \<Rightarrow> fault + world" where
  "step s (Connect c uid q) = ServeWs s c uid q"
| "step s (Unregister c) = Run_unregister s c"
| "step s (Broadcast message ex order) = Run_broadcast s message ex order"
| "step s (Drain c) = Inr (writePump_recv s c)"
| "step s (Trim cutoff) = Inr (s\<lparr>table := repo_CleanOldMessages (table s) cutoff\<rparr>)"

text \<open>
  An event can occur in a state: a new client gets an address not in use, and the
  iteration order of a broadcast lists every key of \<^verbatim>\<open>h.clients\<close> once.
\<close>

fun enabled :: "world \<Rightarrow> event \<Rightarrow> bool" where
  "enabled s (Connect c uid q) = (heap s c = None)"
| "enabled s (Broadcast message ex order) = (distinct order \<and> set order = dom (clients s))"
| "enabled s e = True"

fun exec :: "world \<Rightarrow> event list \<Rightarrow> fault + world" where
  "exec s [] = Inr s"
| "exec s (e # es) =
     (case step s e of
        Inl f \<Rightarrow> Inl f
      | Inr s' \<Rightarrow> exec s' es)"

fun admissible :: "world \<Rightarrow> event list \<Rightarrow> bool" where
  "admissible s [] = True"
| "admissible s (e # es) =
     (enabled s e \<and> (case step s e of Inl f \<Rightarrow> es = [] | Inr s' \<Rightarrow> admissible s' es))"

section \<open>Notions used to state the properties\<close>

text \<open>
  The invariant of the coordination loop: every key of \<^verbatim>\<open>h.clients\<close> is a client that
  exists and whose \<^verbatim>\<open>send\<close> channel is open.
\<close>

definition hub_inv :: "world \<Rightarrow> bool" where
  "hub_inv s = (\<forall>c. clients s c \<noteq> None \<longrightarrow> (\<exists>cl. heap s c = Some cl \<and> \<not> closed (send cl)))"

definition has_room :: "chan \<Rightarrow> bool" where
  "has_room ch = (length (buf ch) < cap ch)"

text \<open>The state after the body of the fan-out loop has run for a client with an open channel.\<close>

definition deliver_result :: "world \<Rightarrow> nat \<Rightarrow> ChatMessage \<Rightarrow> Client \<Rightarrow> world" where
  "deliver_result s c m cl =
     (if has_room (send cl)
      then s\<lparr>heap := (heap s)(c \<mapsto> cl\<lparr>send := (send cl)\<lparr>buf := buf (send cl) @ [m]\<rparr>\<rparr>),
             delivered := (delivered s)(c := delivered s c @ [Fanned m])\<rparr>
      else s\<lparr>heap := (heap s)(c \<mapsto> cl\<lparr>send := (send cl)\<lparr>closed := True\<rparr>\<rparr>),
             clients := (clients s)(c := None)\<rparr>)"

text \<open>
  Delivery of \<open>m\<close> to the client \<open>c\<close> was attempted between \<open>s\<close> and \<open>s'\<close>: the message
  was queued behind what the mailbox held, or the mailbox was full and the client was
  removed from \<^verbatim>\<open>h.clients\<close> and its channel closed.
\<close>

definition fanned_to :: "world \<Rightarrow> world \<Rightarrow> nat \<Rightarrow> ChatMessage \<Rightarrow> bool" where
  "fanned_to s s' c m =
     (case heap s c of
        None \<Rightarrow> False
      | Some cl \<Rightarrow>
          if has_room (send cl)
          then heap s' c = Some (cl\<lparr>send := (send cl)\<lparr>buf := buf (send cl) @ [m]\<rparr>\<rparr>) \<and>
               clients s' c = clients s c \<and>
               delivered s' c = delivered s c @ [Fanned m]
          else heap s' c = Some (cl\<lparr>send := (send cl)\<lparr>closed := True\<rparr>\<rparr>) \<and>
               clients s' c = None \<and>
               delivered s' c = delivered s c)"

definition untouched :: "world \<Rightarrow> world \<Rightarrow> nat \<Rightarrow> bool" where
  "untouched s s' c = (heap s' c = heap s c \<and> clients s' c = clients s c \<and> delivered s' c = delivered s c)"

text \<open>The messages a mailbox got from the broadcast branch, and all it got.\<close>

fun fanned_of :: "delivery list \<Rightarrow> ChatMessage list" where
  "fanned_of [] = []"
| "fanned_of (Replayed m # ds) = fanned_of ds"
| "fanned_of (Fanned m # ds) = m # fanned_of ds"

fun msgs_of :: "delivery list \<Rightarrow> ChatMessage list" where
  "msgs_of [] = []"
| "msgs_of (Replayed m # ds) = m # msgs_of ds"
| "msgs_of (Fanned m # ds) = m # msgs_of ds"

text \<open>The messages that arrived on \<^verbatim>\<open>h.broadcast\<close> during a run, in arrival order.\<close>

fun broadcast_of :: "event \<Rightarrow> ChatMessage list" where
  "broadcast_of (Broadcast m ex order) = [m]"
| "broadcast_of e = []"

definition broadcasts :: "event list \<Rightarrow> ChatMessage list" where
  "broadcasts es = concat (map broadcast_of es)"

definition received :: "fault + world \<Rightarrow> nat \<Rightarrow> ChatMessage list" where
  "received r c = (case r of Inl f \<Rightarrow> [] | Inr s \<Rightarrow> msgs_of (delivered s c))"

text \<open>
  The requests \<^verbatim>\<open>readPump\<close> decodes before its first read error, each with the values
  drawn for it, and the messages among what the pump submits.
\<close>

fun frames_read :: "inbound list \<Rightarrow> (ChatMessageRequest \<times> string \<times> nat) list" where
  "frames_read [] = []"
| "frames_read (ReadError # rest) = []"
| "frames_read (Frame req new_uuid now # rest) = (req, new_uuid, now) # frames_read rest"

fun submitted :: "submission list \<Rightarrow> ChatMessage list" where
  "submitted [] = []"
| "submitted (ToBroadcast m # xs) = m # submitted xs"
| "submitted (ToUnregister c # xs) = submitted xs"

subsection \<open>Example states and runs\<close>

definition msg1 :: ChatMessage where
  "msg1 = \<lparr>ID = ''m1'', UserID = ''u1'', Text = ''hello'', CreatedAt = 1700000001000000000\<rparr>"

definition msg2 :: ChatMessage where
  "msg2 = \<lparr>ID = ''m2'', UserID = ''u1'', Text = ''again'', CreatedAt = 1700000002000000000\<rparr>"

text \<open>One connected client with an empty mailbox, and one whose mailbox is full.\<close>

definition one_client :: world where
  "one_client =
     \<lparr>clients = [0 \<mapsto> True],
      heap = [0 \<mapsto> \<lparr>send = make_chan 256, userID = ''u1''\<rparr>],
      table = [],
      delivered = (\<lambda>c. [])\<rparr>"

definition full_client :: world where
  "full_client =
     \<lparr>clients = [0 \<mapsto> True],
      heap = [0 \<mapsto> \<lparr>send = \<lparr>buf = replicate 256 msg1, cap = 256, closed = False\<rparr>, userID = ''u1''\<rparr>],
      table = [],
      delivered = (\<lambda>c. [])\<rparr>"

text \<open>
  A client connects, two messages are broadcast and saved, and a second client connects.
\<close>

definition reorder_run :: "event list" where
  "reorder_run =
     [Connect 0 ''u1'' RowsOk,
      Broadcast msg1 (RowsAffected 1) [0],
      Broadcast msg2 (RowsAffected 1) [0],
      Connect 1 ''u2'' RowsOk]"

definition after_first :: world where
  "after_first = \<lparr>clients = [0 \<mapsto> True],
      heap = [0 \<mapsto> \<lparr>send = \<lparr>buf = [msg1], cap = 256, closed = False\<rparr>, userID = ''u1''\<rparr>],
      table = [to_row msg1],
      delivered = (\<lambda>c. [])(0 := [Fanned msg1])\<rparr>"

definition after_second :: world where
  "after_second = \<lparr>clients = [0 \<mapsto> True],
      heap = [0 \<mapsto> \<lparr>send = \<lparr>buf = [msg1, msg2], cap = 256, closed = False\<rparr>, userID = ''u1''\<rparr>],
      table = [to_row msg1, to_row msg2],
      delivered = (\<lambda>c. [])(0 := [Fanned msg1, Fanned msg2])\<rparr>"

definition two_clients :: world where
  "two_clients = \<lparr>clients = [0 \<mapsto> True, 1 \<mapsto> True],
      heap = [0 \<mapsto> \<lparr>send = \<lparr>buf = [msg1, msg2], cap = 256, closed = False\<rparr>, userID = ''u1''\<rparr>,
              1 \<mapsto> \<lparr>send = \<lparr>buf = [msg2, msg1], cap = 256, closed = False\<rparr>, userID = ''u2''\<rparr>],
      table = [to_row msg1, to_row msg2],
      delivered = (\<lambda>c. [])(0 := [Fanned msg1, Fanned msg2], 1 := [Replayed msg2, Replayed msg1])\<rparr>"

definition closed_client :: world where
  "closed_client =
     \<lparr>clients = Map.empty,
      heap = [0 \<mapsto> \<lparr>send = \<lparr>buf = [], cap = 256, closed = True\<rparr>, userID = ''u1''\<rparr>],
      table = [],
      delivered = (\<lambda>c. [])\<rparr>"

definition empty_text_msg :: ChatMessage where
  "empty_text_msg = NewChatMessage (ChatMessageRequest []) ''u1'' ''m3'' 1700000003000000000"




section \<open>Lemmas\<close>

text \<open>
  The lemmas \<open>hub_inv_NewHub\<close>, \<open>step_inv\<close> and \<open>exec_inv\<close> show that a new hub
  satisfies the invariant, that every event that can occur in a state satisfying it
  returns a state satisfying it, and so that every run from a new hub returns such a
  state: the loop never panics and never waits in a send.
\<close>

lemma deliver_open:
  "heap s c = Some cl \<Longrightarrow> \<not> closed (send cl) \<Longrightarrow> deliver s c m = Inr (deliver_result s c m cl)"
  by (simp add: deliver_def deliver_result_def has_room_def chan_try_send_def client_close_def chan_close_def)

lemma deliver_not_blocked: "deliver s c m \<noteq> Inl Blocked"
  by (auto simp: deliver_def chan_try_send_def client_close_def chan_close_def
      split: option.splits sum.splits if_splits)

lemma fanout_not_blocked: "fanout s m cs \<noteq> Inl Blocked"
  by (induction cs arbitrary: s) (auto simp: deliver_not_blocked split: sum.splits)

lemma deliver_result_other:
  "c' \<noteq> c \<Longrightarrow> untouched s (deliver_result s c m cl) c'"
  by (simp add: untouched_def deliver_result_def)

lemma deliver_result_self:
  "heap s c = Some cl \<Longrightarrow> fanned_to s (deliver_result s c m cl) c m"
  by (simp add: fanned_to_def deliver_result_def)

lemma deliver_result_table: "table (deliver_result s c m cl) = table s"
  by (simp add: deliver_result_def)

lemma fanout_effect:
  assumes "distinct cs"
    and "\<forall>c\<in>set cs. \<exists>cl. heap s c = Some cl \<and> \<not> closed (send cl)"
  shows "\<exists>s'. fanout s m cs = Inr s' \<and> table s' = table s \<and>
           (\<forall>c. if c \<in> set cs then fanned_to s s' c m else untouched s s' c)"
  using assms
proof (induction cs arbitrary: s)
  case Nil
  then show ?case by (simp add: untouched_def)
next
  case (Cons c cs)
  from Cons.prems obtain cl where cl: "heap s c = Some cl" "\<not> closed (send cl)" by auto
  let ?s1 = "deliver_result s c m cl"
  have d: "deliver s c m = Inr ?s1" using cl by (rule deliver_open)
  have other: "\<And>c'. c' \<noteq> c \<Longrightarrow> untouched s ?s1 c'" by (rule deliver_result_other)
  have pre: "\<forall>c'\<in>set cs. \<exists>cl. heap ?s1 c' = Some cl \<and> \<not> closed (send cl)"
  proof
    fix c' assume c': "c' \<in> set cs"
    with Cons.prems have "c' \<noteq> c" by auto
    then have "heap ?s1 c' = heap s c'" using other by (simp add: untouched_def)
    with Cons.prems c' show "\<exists>cl. heap ?s1 c' = Some cl \<and> \<not> closed (send cl)" by auto
  qed
  from Cons.prems have "distinct cs" by simp
  from Cons.IH[OF this pre] obtain s' where s':
    "fanout ?s1 m cs = Inr s'" "table s' = table ?s1"
    "\<And>c'. if c' \<in> set cs then fanned_to ?s1 s' c' m else untouched ?s1 s' c'" by blast
  have f: "fanout s m (c # cs) = Inr s'" using d s'(1) by simp
  have t: "table s' = table s" using s'(2) by (simp add: deliver_result_table)
  have "if c' \<in> set (c # cs) then fanned_to s s' c' m else untouched s s' c'" for c'
  proof (cases "c' = c")
    case True
    with Cons.prems have "c' \<notin> set cs" by auto
    with s'(3)[of c'] have u: "untouched ?s1 s' c'" by simp
    have "fanned_to s ?s1 c m" using cl(1) by (rule deliver_result_self)
    with u True cl(1) show ?thesis by (auto simp: fanned_to_def untouched_def split: if_splits)
  next
    case False
    from other[OF False] have u: "untouched s ?s1 c'" .
    show ?thesis
    proof (cases "c' \<in> set cs")
      case True
      with s'(3)[of c'] have "fanned_to ?s1 s' c' m" by simp
      with u True False show ?thesis by (auto simp: fanned_to_def untouched_def split: option.splits if_splits)
    next
      case False2: False
      with s'(3)[of c'] have "untouched ?s1 s' c'" by simp
      with u False False2 show ?thesis by (auto simp: untouched_def)
    qed
  qed
  with f t show ?case by blast
qed


lemma length_query_recent: "0 \<le> limit \<Longrightarrow> length (query_recent t limit offset) \<le> nat limit"
  by (simp add: query_recent_def Let_def)

lemma GetMessages_bounded:
  "GetMessages t 100 0 q = Inr messages \<Longrightarrow> length messages \<le> 100"
  using length_query_recent[of 100 t 0]
  by (auto simp: GetMessages_def repo_GetMessages_def split: query_outcome.splits if_splits)

lemma send_all_room:
  assumes "heap s c = Some cl" and "\<not> closed (send cl)"
    and "length (buf (send cl)) + length ms \<le> cap (send cl)"
  shows "send_all s c ms =
           Inr (s\<lparr>heap := (heap s)(c \<mapsto> cl\<lparr>send := (send cl)\<lparr>buf := buf (send cl) @ ms\<rparr>\<rparr>),
                  delivered := (delivered s)(c := delivered s c @ map Replayed ms)\<rparr>)"
  using assms
proof (induction ms arbitrary: s cl)
  case Nil
  then have "(heap s)(c \<mapsto> cl) = heap s" by (simp add: map_upd_triv)
  then show ?case by simp
next
  case (Cons m ms)
  let ?cl1 = "cl\<lparr>send := (send cl)\<lparr>buf := buf (send cl) @ [m]\<rparr>\<rparr>"
  let ?s1 = "s\<lparr>heap := (heap s)(c \<mapsto> ?cl1),
                delivered := (delivered s)(c := delivered s c @ [Replayed m])\<rparr>"
  have cs: "client_send s c m = Inr ?s1"
    using Cons.prems by (simp add: client_send_def chan_send_def)
  have h1: "heap ?s1 c = Some ?cl1" by simp
  have o1: "\<not> closed (send ?cl1)" using Cons.prems by simp
  have r1: "length (buf (send ?cl1)) + length ms \<le> cap (send ?cl1)" using Cons.prems by simp
  have "send_all s c (m # ms) = send_all ?s1 c ms" using cs by simp
  also have "\<dots> = Inr (?s1\<lparr>heap := (heap ?s1)(c \<mapsto> ?cl1\<lparr>send := (send ?cl1)\<lparr>buf := buf (send ?cl1) @ ms\<rparr>\<rparr>),
                  delivered := (delivered ?s1)(c := delivered ?s1 c @ map Replayed ms)\<rparr>)"
    by (rule Cons.IH[OF h1 o1 r1])
  also have "\<dots> = Inr (s\<lparr>heap := (heap s)(c \<mapsto> cl\<lparr>send := (send cl)\<lparr>buf := buf (send cl) @ m # ms\<rparr>\<rparr>),
                  delivered := (delivered s)(c := delivered s c @ map Replayed (m # ms))\<rparr>)"
    by simp
  finally show ?case .
qed

lemma ServeWs_result:
  "ServeWs s c uid q =
     (case GetMessages (table s) 100 0 q of
        Inl err \<Rightarrow>
          Inr (s\<lparr>heap := (heap s)(c \<mapsto> \<lparr>send = make_chan 256, userID = uid\<rparr>),
                 clients := (clients s)(c \<mapsto> True)\<rparr>)
      | Inr messages \<Rightarrow>
          Inr (s\<lparr>heap := (heap s)(c \<mapsto> \<lparr>send = \<lparr>buf = messages, cap = 256, closed = False\<rparr>, userID = uid\<rparr>),
                 clients := (clients s)(c \<mapsto> True),
                 delivered := (delivered s)(c := delivered s c @ map Replayed messages)\<rparr>))"
proof (cases "GetMessages (table s) 100 0 q")
  case (Inl err)
  then show ?thesis by (simp add: ServeWs_def Run_register_def)
next
  case (Inr messages)
  let ?cl = "\<lparr>send = make_chan 256, userID = uid\<rparr>"
  let ?s1 = "s\<lparr>heap := (heap s)(c \<mapsto> ?cl), clients := (clients s)(c \<mapsto> True)\<rparr>"
  have len: "length messages \<le> 100" using Inr by (rule GetMessages_bounded)
  have "send_all ?s1 c messages =
           Inr (?s1\<lparr>heap := (heap ?s1)(c \<mapsto> ?cl\<lparr>send := (send ?cl)\<lparr>buf := buf (send ?cl) @ messages\<rparr>\<rparr>),
                  delivered := (delivered ?s1)(c := delivered ?s1 c @ map Replayed messages)\<rparr>)"
    by (rule send_all_room) (use len in \<open>simp_all add: make_chan_def\<close>)
  then show ?thesis using Inr by (simp add: ServeWs_def Run_register_def make_chan_def)
qed

lemma hub_inv_NewHub: "hub_inv (NewHub t)"
  by (simp add: hub_inv_def NewHub_def)

lemma ServeWs_inv:
  assumes "hub_inv s" and "heap s c = None"
  shows "\<exists>s'. ServeWs s c uid q = Inr s' \<and> hub_inv s'"
proof -
  have nm: "clients s c = None" using assms by (auto simp: hub_inv_def)
  show ?thesis
    using assms(1) by (auto simp: ServeWs_result hub_inv_def make_chan_def split: sum.splits)
qed

lemma Run_unregister_non_member: "clients s c = None \<Longrightarrow> Run_unregister s c = Inr s"
  by (simp add: Run_unregister_def)

lemma Run_unregister_member:
  assumes "clients s c = Some b" and "heap s c = Some cl" and "\<not> closed (send cl)"
  shows "Run_unregister s c =
           Inr (s\<lparr>clients := (clients s)(c := None),
                  heap := (heap s)(c \<mapsto> cl\<lparr>send := (send cl)\<lparr>closed := True\<rparr>\<rparr>)\<rparr>)"
  using assms by (simp add: Run_unregister_def client_close_def chan_close_def)

lemma Run_unregister_inv:
  assumes "hub_inv s"
  shows "\<exists>s'. Run_unregister s c = Inr s' \<and> hub_inv s'"
proof (cases "clients s c")
  case None
  then show ?thesis using assms by (simp add: Run_unregister_non_member)
next
  case (Some b)
  with assms obtain cl where cl: "heap s c = Some cl" "\<not> closed (send cl)"
    by (auto simp: hub_inv_def)
  show ?thesis
    using assms by (auto simp: Run_unregister_member[OF Some cl] hub_inv_def)
qed

lemma Run_broadcast_cases:
  "Run_broadcast s m ex order =
     (if fst (SaveMessage (table s) m ex) = None
      then fanout (s\<lparr>table := snd (SaveMessage (table s) m ex)\<rparr>) m order
      else Inr (s\<lparr>table := snd (SaveMessage (table s) m ex)\<rparr>))"
  by (cases "SaveMessage (table s) m ex") (auto simp: Run_broadcast_def split: option.splits)

lemma fanout_inv:
  assumes "hub_inv s" and "distinct cs" and "set cs \<subseteq> dom (clients s)"
  shows "\<exists>s'. fanout s m cs = Inr s' \<and> hub_inv s' \<and> table s' = table s \<and>
           (\<forall>c. if c \<in> set cs then fanned_to s s' c m else untouched s s' c)"
proof -
  have pre: "\<forall>c\<in>set cs. \<exists>cl. heap s c = Some cl \<and> \<not> closed (send cl)"
    using assms(1,3) by (auto simp: hub_inv_def)
  from fanout_effect[OF assms(2) pre, of m] obtain s' where s':
    "fanout s m cs = Inr s'" "table s' = table s"
    "\<And>c. if c \<in> set cs then fanned_to s s' c m else untouched s s' c" by blast
  have "hub_inv s'"
    unfolding hub_inv_def
  proof (intro allI impI)
    fix c assume m': "clients s' c \<noteq> None"
    show "\<exists>cl. heap s' c = Some cl \<and> \<not> closed (send cl)"
    proof (cases "c \<in> set cs")
      case True
      with s'(3)[of c] have f: "fanned_to s s' c m" by simp
      from True pre obtain cl where cl: "heap s c = Some cl" "\<not> closed (send cl)" by auto
      with f m' show ?thesis by (auto simp: fanned_to_def split: if_splits)
    next
      case False
      with s'(3)[of c] have "untouched s s' c" by simp
      with m' assms(1) show ?thesis by (auto simp: untouched_def hub_inv_def)
    qed
  qed
  with s' show ?thesis by blast
qed

lemma hub_inv_table: "hub_inv (s\<lparr>table := t\<rparr>) = hub_inv s"
  by (simp add: hub_inv_def)

lemma Run_broadcast_inv:
  assumes "hub_inv s" and "distinct order" and "set order = dom (clients s)"
  shows "\<exists>s'. Run_broadcast s m ex order = Inr s' \<and> hub_inv s'"
proof (cases "fst (SaveMessage (table s) m ex) = None")
  case True
  let ?s1 = "s\<lparr>table := snd (SaveMessage (table s) m ex)\<rparr>"
  have "hub_inv ?s1" using assms(1) by (simp add: hub_inv_table)
  moreover have "set order \<subseteq> dom (clients ?s1)" using assms(3) by simp
  ultimately obtain s' where "fanout ?s1 m order = Inr s'" "hub_inv s'"
    using fanout_inv[of ?s1 order m] assms(2) by blast
  then show ?thesis using True by (simp add: Run_broadcast_cases)
next
  case False
  then have "Run_broadcast s m ex order = Inr (s\<lparr>table := snd (SaveMessage (table s) m ex)\<rparr>)"
    unfolding Run_broadcast_cases by (rule if_not_P)
  then show ?thesis using assms(1) by (simp add: hub_inv_table)
qed

lemma writePump_recv_inv: "hub_inv s \<Longrightarrow> hub_inv (writePump_recv s c)"
  by (auto simp: hub_inv_def writePump_recv_def chan_recv_def split: option.splits list.splits if_splits)

lemma step_inv:
  assumes "hub_inv s" and "enabled s e"
  shows "\<exists>s'. step s e = Inr s' \<and> hub_inv s'"
proof (cases e)
  case (Connect c uid q)
  then show ?thesis using assms ServeWs_inv by simp
next
  case (Unregister c)
  then show ?thesis using assms Run_unregister_inv by simp
next
  case (Broadcast m ex order)
  then show ?thesis using assms Run_broadcast_inv by simp
next
  case (Drain c)
  then show ?thesis using assms writePump_recv_inv by simp
next
  case (Trim cutoff)
  then show ?thesis using assms by (simp add: hub_inv_table)
qed

lemma exec_inv:
  "hub_inv s \<Longrightarrow> admissible s es \<Longrightarrow> \<exists>s'. exec s es = Inr s' \<and> hub_inv s'"
proof (induction es arbitrary: s)
  case Nil
  then show ?case by simp
next
  case (Cons e es)
  then have en: "enabled s e" by simp
  from step_inv[OF Cons.prems(1) en] obtain s1 where s1: "step s e = Inr s1" "hub_inv s1" by blast
  with Cons.prems have "admissible s1 es" by simp
  from Cons.IH[OF s1(2) this] show ?case using s1(1) by simp
qed


lemma fanned_of_append: "fanned_of (xs @ ys) = fanned_of xs @ fanned_of ys"
  by (induction xs rule: fanned_of.induct) simp_all

lemma fanned_of_Replayed: "fanned_of (map Replayed ms) = []"
  by (induction ms) simp_all

lemma broadcasts_Cons: "broadcasts (e # es) = broadcast_of e @ broadcasts es"
  by (simp add: broadcasts_def)

lemma writePump_recv_fields:
  "delivered (writePump_recv s c') = delivered s"
  "clients (writePump_recv s c') = clients s"
  "table (writePump_recv s c') = table s"
  "(heap (writePump_recv s c') c = None) = (heap s c = None)"
  by (auto simp: writePump_recv_def chan_recv_def split: option.splits list.splits if_splits)

lemma step_delivered:
  assumes "hub_inv s" and "enabled s e" and "step s e = Inr s'"
  shows "\<exists>ds. delivered s' c = delivered s c @ ds \<and> subseq (fanned_of ds) (broadcast_of e)"
proof (cases e)
  case (Connect c' uid q)
  with assms(3) have "ServeWs s c' uid q = Inr s'" by simp
  then have "\<exists>ms. delivered s' c = delivered s c @ map Replayed ms"
    unfolding ServeWs_result
    by (cases "GetMessages (table s) 100 0 q"; cases "c = c'") auto
  then show ?thesis using Connect by (auto simp: fanned_of_Replayed)
next
  case (Unregister c')
  with assms(3) have r: "Run_unregister s c' = Inr s'" by simp
  have "delivered s' c = delivered s c"
  proof (cases "clients s c'")
    case None
    with r show ?thesis by (simp add: Run_unregister_non_member)
  next
    case (Some b)
    with assms(1) obtain cl where cl: "heap s c' = Some cl" "\<not> closed (send cl)"
      by (auto simp: hub_inv_def)
    from r show ?thesis unfolding Run_unregister_member[OF Some cl] by auto
  qed
  then show ?thesis by simp
next
  case (Broadcast m ex order)
  with assms have en: "distinct order" "set order = dom (clients s)"
    and r: "Run_broadcast s m ex order = Inr s'" by simp_all
  let ?s1 = "s\<lparr>table := snd (SaveMessage (table s) m ex)\<rparr>"
  show ?thesis
  proof (cases "fst (SaveMessage (table s) m ex) = None")
    case True
    have inv1: "hub_inv ?s1" using assms(1) by (simp add: hub_inv_table)
    have "set order \<subseteq> dom (clients ?s1)" using en(2) by simp
    from fanout_inv[OF inv1 en(1) this, of m] r True
    have eff: "if c \<in> set order then fanned_to ?s1 s' c m else untouched ?s1 s' c"
      by (auto simp: Run_broadcast_cases)
    then have "delivered s' c = delivered s c \<or> delivered s' c = delivered s c @ [Fanned m]"
      by (auto simp: fanned_to_def untouched_def split: option.splits if_splits)
    then show ?thesis using Broadcast by auto
  next
    case False
    then have "Run_broadcast s m ex order = Inr ?s1"
      unfolding Run_broadcast_cases by (rule if_not_P)
    with r have "s' = ?s1" by simp
    then show ?thesis by simp
  qed
next
  case (Drain c')
  with assms(3) show ?thesis by (auto simp: writePump_recv_fields)
next
  case (Trim cutoff)
  with assms(3) show ?thesis by auto
qed

lemma exec_delivered:
  "hub_inv s \<Longrightarrow> admissible s es \<Longrightarrow> exec s es = Inr s' \<Longrightarrow>
     \<exists>ds. delivered s' c = delivered s c @ ds \<and> subseq (fanned_of ds) (broadcasts es)"
proof (induction es arbitrary: s)
  case Nil
  then show ?case by (simp add: broadcasts_def)
next
  case (Cons e es)
  then have en: "enabled s e" by simp
  from step_inv[OF Cons.prems(1) en] obtain s1 where s1: "step s e = Inr s1" "hub_inv s1" by blast
  with Cons.prems have adm: "admissible s1 es" and ex: "exec s1 es = Inr s'" by simp_all
  from step_delivered[OF Cons.prems(1) en s1(1), of c] obtain d1 where
    d1: "delivered s1 c = delivered s c @ d1" "subseq (fanned_of d1) (broadcast_of e)" by blast
  from Cons.IH[OF s1(2) adm ex] obtain d2 where
    d2: "delivered s' c = delivered s1 c @ d2" "subseq (fanned_of d2) (broadcasts es)" by blast
  have "delivered s' c = delivered s c @ (d1 @ d2)" using d1(1) d2(1) by simp
  moreover have "subseq (fanned_of (d1 @ d2)) (broadcasts (e # es))"
    using d1(2) d2(2) by (simp add: fanned_of_append broadcasts_Cons list_emb_append_mono)
  ultimately show ?case by blast
qed

lemma step_non_member:
  assumes "hub_inv s" and "enabled s e" and "step s e = Inr s'"
    and "heap s c \<noteq> None" and "clients s c = None"
  shows "delivered s' c = delivered s c \<and> clients s' c = None \<and> heap s' c \<noteq> None"
proof (cases e)
  case (Connect c' uid q)
  with assms have ne: "c \<noteq> c'" and r: "ServeWs s c' uid q = Inr s'" by auto
  from r ne assms(4,5) show ?thesis
    unfolding ServeWs_result by (cases "GetMessages (table s) 100 0 q") auto
next
  case (Unregister c')
  with assms(3) have r: "Run_unregister s c' = Inr s'" by simp
  show ?thesis
  proof (cases "clients s c'")
    case None
    with r assms(4,5) show ?thesis by (simp add: Run_unregister_non_member)
  next
    case (Some b)
    with assms(1) obtain cl where cl: "heap s c' = Some cl" "\<not> closed (send cl)"
      by (auto simp: hub_inv_def)
    from r assms(4,5) show ?thesis unfolding Run_unregister_member[OF Some cl] by auto
  qed
next
  case (Broadcast m ex order)
  with assms have en: "distinct order" "set order = dom (clients s)"
    and r: "Run_broadcast s m ex order = Inr s'" by simp_all
  let ?s1 = "s\<lparr>table := snd (SaveMessage (table s) m ex)\<rparr>"
  show ?thesis
  proof (cases "fst (SaveMessage (table s) m ex) = None")
    case True
    have inv1: "hub_inv ?s1" using assms(1) by (simp add: hub_inv_table)
    have "set order \<subseteq> dom (clients ?s1)" using en(2) by simp
    from fanout_inv[OF inv1 en(1) this, of m] r True
    have eff: "if c \<in> set order then fanned_to ?s1 s' c m else untouched ?s1 s' c"
      by (auto simp: Run_broadcast_cases)
    have "c \<notin> set order" using en(2) assms(5) by auto
    with eff have "untouched ?s1 s' c" by simp
    then show ?thesis using assms(4,5) by (simp add: untouched_def)
  next
    case False
    then have "Run_broadcast s m ex order = Inr ?s1"
      unfolding Run_broadcast_cases by (rule if_not_P)
    with r have "s' = ?s1" by simp
    then show ?thesis using assms(4,5) by simp
  qed
next
  case (Drain c')
  with assms(3) have "s' = writePump_recv s c'" by simp
  with assms(4,5) show ?thesis by (simp add: writePump_recv_fields)
next
  case (Trim cutoff)
  with assms(3,4,5) show ?thesis by auto
qed

lemma exec_non_member:
  "hub_inv s \<Longrightarrow> admissible s es \<Longrightarrow> exec s es = Inr s' \<Longrightarrow>
   heap s c \<noteq> None \<Longrightarrow> clients s c = None \<Longrightarrow>
     delivered s' c = delivered s c \<and> clients s' c = None"
proof (induction es arbitrary: s)
  case Nil
  then show ?case by simp
next
  case (Cons e es)
  then have en: "enabled s e" by simp
  from step_inv[OF Cons.prems(1) en] obtain s1 where s1: "step s e = Inr s1" "hub_inv s1" by blast
  with Cons.prems have adm: "admissible s1 es" and ex: "exec s1 es = Inr s'" by simp_all
  from step_non_member[OF Cons.prems(1) en s1(1) Cons.prems(4,5)]
  have n1: "delivered s1 c = delivered s c" "clients s1 c = None" "heap s1 c \<noteq> None" by simp_all
  from Cons.IH[OF s1(2) adm ex n1(3) n1(2)] n1(1) show ?case by simp
qed

lemma subseq_pair_distinct:
  "distinct xs \<Longrightarrow> subseq [a, b] xs \<Longrightarrow> subseq [b, a] xs \<Longrightarrow> False"
proof (induction xs)
  case Nil
  then show ?case by simp
next
  case (Cons x xs)
  show ?case
  proof (cases "x = a")
    case True
    with Cons.prems have "a \<notin> set xs" by simp
    moreover from Cons.prems(3) True have "subseq [a] xs \<or> subseq [b, a] xs"
      by (cases "b = a") (auto simp: subseq_Cons2_iff)
    then have "a \<in> set xs"
      by (metis subseq_singleton_left subseq_Cons' )
    ultimately show ?thesis by simp
  next
    case False
    show ?thesis
    proof (cases "x = b")
      case True
      with Cons.prems have "b \<notin> set xs" by simp
      moreover from Cons.prems(2) False have "subseq [a, b] xs" by (auto elim: list_emb.cases)
      then have "b \<in> set xs" by (metis subseq_singleton_left subseq_Cons')
      ultimately show ?thesis by simp
    next
      case F2: False
      from Cons.prems(2) False have 1: "subseq [a, b] xs" by (auto elim: list_emb.cases)
      from Cons.prems(3) F2 have 2: "subseq [b, a] xs" by (auto elim: list_emb.cases)
      from Cons.prems(1) have "distinct xs" by simp
      from Cons.IH[OF this 1 2] show ?thesis .
    qed
  qed
qed

lemma fanned_to_table: "fanned_to (s\<lparr>table := t\<rparr>) s' c m = fanned_to s s' c m"
  by (simp add: fanned_to_def split: option.splits)

lemma const_upd_same: "(\<lambda>c. v)(k := v) = (\<lambda>c. v)"
  by (simp add: fun_eq_iff)

lemma untouched_table: "untouched (s\<lparr>table := t\<rparr>) s' c = untouched s s' c"
  by (simp add: untouched_def)

lemma Run_broadcast_effect:
  assumes "hub_inv s" and "distinct order" and "set order = dom (clients s)"
  shows "\<exists>s'. Run_broadcast s m ex order = Inr s' \<and> hub_inv s' \<and>
           table s' = snd (SaveMessage (table s) m ex) \<and>
           (\<forall>c. if fst (SaveMessage (table s) m ex) = None \<and> c \<in> dom (clients s)
                then fanned_to s s' c m else untouched s s' c)"
proof (cases "fst (SaveMessage (table s) m ex) = None")
  case True
  let ?s1 = "s\<lparr>table := snd (SaveMessage (table s) m ex)\<rparr>"
  have inv1: "hub_inv ?s1" using assms(1) by (simp add: hub_inv_table)
  have "set order \<subseteq> dom (clients ?s1)" using assms(3) by simp
  from fanout_inv[OF inv1 assms(2) this, of m] obtain s' where s':
    "fanout ?s1 m order = Inr s'" "hub_inv s'" "table s' = table ?s1"
    "\<And>c. if c \<in> set order then fanned_to ?s1 s' c m else untouched ?s1 s' c" by blast
  have "Run_broadcast s m ex order = Inr s'" using True s'(1) by (simp add: Run_broadcast_cases)
  moreover have "table s' = snd (SaveMessage (table s) m ex)" using s'(3) by simp
  moreover have "if fst (SaveMessage (table s) m ex) = None \<and> c \<in> dom (clients s)
                then fanned_to s s' c m else untouched s s' c" for c
    using s'(4)[of c] True assms(3) by (auto simp: fanned_to_table untouched_table split: if_splits)
  ultimately show ?thesis using s'(2) by blast
next
  case False
  let ?s1 = "s\<lparr>table := snd (SaveMessage (table s) m ex)\<rparr>"
  from False have "Run_broadcast s m ex order = Inr ?s1"
    unfolding Run_broadcast_cases by (rule if_not_P)
  moreover have "hub_inv ?s1" using assms(1) by (simp add: hub_inv_table)
  moreover have "untouched s ?s1 c" for c by (simp add: untouched_def)
  ultimately show ?thesis using False by auto
qed

lemma one_client_inv: "hub_inv one_client"
  by (simp add: hub_inv_def one_client_def make_chan_def)

lemma one_client_dom: "dom (clients one_client) = {0}"
  by (simp add: one_client_def)

lemma one_client_reached: "exec (NewHub []) [Connect 0 ''u1'' RowsOk] = Inr one_client"
  by (simp add: ServeWs_result GetMessages_def repo_GetMessages_def query_recent_def
      NewHub_def one_client_def make_chan_def const_upd_same)

lemma full_client_inv: "hub_inv full_client"
  by (simp add: hub_inv_def full_client_def)

lemma full_client_dom: "dom (clients full_client) = {0}"
  by (simp add: full_client_def)

lemma delivered_NewHub: "delivered (NewHub t) c = []"
  by (simp add: NewHub_def)

lemma step_b1: "Run_broadcast one_client msg1 (RowsAffected 1) [0] = Inr after_first"
  by (simp add: Run_broadcast_def SaveMessage_def repo_SaveMessage_def one_client_def after_first_def
      deliver_def chan_try_send_def make_chan_def)

lemma step_b2: "Run_broadcast after_first msg2 (RowsAffected 1) [0] = Inr after_second"
  by (simp add: Run_broadcast_def SaveMessage_def repo_SaveMessage_def after_first_def after_second_def
      deliver_def chan_try_send_def)

lemma recent_two: "query_recent [to_row msg1, to_row msg2] 100 0 = [to_row msg2, to_row msg1]"
  by (simp add: query_recent_def to_row_def msg1_def msg2_def nanos_per_second_def)

lemma from_to_row: "from_row (to_row msg1) = msg1" "from_row (to_row msg2) = msg2"
  by (simp_all add: from_row_def to_row_def msg1_def msg2_def nanos_per_second_def)

lemma step_c2: "ServeWs after_second 1 ''u2'' RowsOk = Inr two_clients"
  by (simp add: ServeWs_result GetMessages_def repo_GetMessages_def after_second_def two_clients_def recent_two from_to_row
      fun_upd_twist)

lemma step_c2': "ServeWs after_second (Suc 0) ''u2'' RowsOk = Inr two_clients"
  using step_c2 by simp

lemma step_c1: "ServeWs (NewHub []) 0 ''u1'' RowsOk = Inr one_client"
  using one_client_reached by (simp split: sum.splits)

lemma run_result: "exec (NewHub []) reorder_run = Inr two_clients"
  by (simp add: reorder_run_def step_c1 step_b1 step_b2 step_c2')

lemma run_admissible: "admissible (NewHub []) reorder_run"
proof -
  have "heap (NewHub []) 0 = None" by (simp add: NewHub_def)
  moreover have "dom (clients after_first) = {0}" "dom (clients after_second) = {0}" "heap after_second (Suc 0) = None"
    by (simp_all add: after_first_def after_second_def)
  ultimately show ?thesis
    by (simp add: reorder_run_def step_c1 step_b1 step_b2 step_c2' one_client_dom)
qed












lemma Run_unregister_removes: "Run_unregister s c = Inr s' \<Longrightarrow> clients s' c = None"
  by (auto simp: Run_unregister_def client_close_def chan_close_def
      split: option.splits if_splits)

lemma unregister_one_client: "Run_unregister one_client 0 = Inr closed_client"
  by (simp add: Run_unregister_def client_close_def chan_close_def one_client_def
      closed_client_def make_chan_def)

lemma exec_twice_unregister:
  "exec (NewHub []) [Connect 0 ''u1'' RowsOk, Unregister 0, Unregister 0] = Inr closed_client"
proof -
  have "Run_unregister closed_client 0 = Inr closed_client"
    by (simp add: Run_unregister_def closed_client_def)
  then show ?thesis by (simp add: step_c1 unregister_one_client)
qed

lemma admissible_twice_unregister:
  "admissible (NewHub []) [Connect 0 ''u1'' RowsOk, Unregister 0, Unregister 0]"
proof -
  have "Run_unregister closed_client 0 = Inr closed_client"
    by (simp add: Run_unregister_def closed_client_def)
  moreover have "heap (NewHub []) 0 = None" by (simp add: NewHub_def)
  ultimately show ?thesis by (simp add: step_c1 unregister_one_client)
qed

lemma readPump_fields:
  "map (\<lambda>m. (UserID m, Text m, ID m, CreatedAt m)) (submitted (readPump c cl ins)) =
   map (\<lambda>(req, new_uuid, now). (userID cl, req_Text req, new_uuid, now)) (frames_read ins)"
  by (induction c cl ins rule: readPump.induct) (simp_all add: NewChatMessage_def)

lemma readPump_ids:
  "map ID (submitted (readPump c cl ins)) = map (\<lambda>(req, new_uuid, now). new_uuid) (frames_read ins)"
  by (induction c cl ins rule: readPump.induct) (simp_all add: NewChatMessage_def)

lemma writePump_recv_closed:
  "heap s c = Some cl \<Longrightarrow>
     \<exists>cl'. heap (writePump_recv s c') c = Some cl' \<and> closed (send cl') = closed (send cl)"
  by (auto simp: writePump_recv_def chan_recv_def split: option.splits list.splits if_splits)

lemma step_non_member_closed:
  assumes "hub_inv s" and "enabled s e" and "step s e = Inr s'"
    and "heap s c = Some cl" and "clients s c = None"
  shows "\<exists>cl'. heap s' c = Some cl' \<and> closed (send cl') = closed (send cl)"
proof (cases e)
  case (Connect c' uid q)
  with assms have ne: "c \<noteq> c'" and r: "ServeWs s c' uid q = Inr s'" by auto
  from r ne assms(4) show ?thesis
    unfolding ServeWs_result by (cases "GetMessages (table s) 100 0 q") auto
next
  case (Unregister c')
  with assms(3) have r: "Run_unregister s c' = Inr s'" by simp
  show ?thesis
  proof (cases "clients s c'")
    case None
    with r assms(4) show ?thesis by (simp add: Run_unregister_non_member)
  next
    case (Some b)
    with assms(5) have ne: "c \<noteq> c'" by auto
    from Some assms(1) obtain cl0 where cl0: "heap s c' = Some cl0" "\<not> closed (send cl0)"
      by (auto simp: hub_inv_def)
    from r ne assms(4) show ?thesis unfolding Run_unregister_member[OF Some cl0] by auto
  qed
next
  case (Broadcast m ex order)
  with assms have en: "distinct order" "set order = dom (clients s)"
    and r: "Run_broadcast s m ex order = Inr s'" by simp_all
  from Run_broadcast_effect[OF assms(1) en, of m ex] r
  have "if fst (SaveMessage (table s) m ex) = None \<and> c \<in> dom (clients s)
        then fanned_to s s' c m else untouched s s' c" by auto
  with assms(5) have "untouched s s' c" by (auto split: if_splits)
  with assms(4) show ?thesis by (simp add: untouched_def)
next
  case (Drain c')
  with assms(3) have "s' = writePump_recv s c'" by simp
  with writePump_recv_closed[OF assms(4), of c'] show ?thesis by simp
next
  case (Trim cutoff)
  with assms(3,4) show ?thesis by auto
qed

lemma step_closes_members_only:
  assumes "hub_inv s" and "enabled s e" and "step s e = Inr s'"
    and "heap s c = Some cl" and "\<not> closed (send cl)"
    and "heap s' c = Some cl'" and "closed (send cl')"
  shows "clients s c \<noteq> None \<and> clients s' c = None"
proof -
  from step_inv[OF assms(1,2)] assms(3) have "hub_inv s'" by auto
  with assms(6,7) have 1: "clients s' c = None" by (auto simp: hub_inv_def)
  have 2: "clients s c \<noteq> None"
  proof
    assume "clients s c = None"
    from step_non_member_closed[OF assms(1,2,3,4) this] assms(5,6,7) show False by auto
  qed
  from 1 2 show ?thesis by simp
qed

lemma Run_broadcast_not_blocked: "Run_broadcast s m ex order \<noteq> Inl Blocked"
  by (cases "SaveMessage (table s) m ex")
     (auto simp: Run_broadcast_def fanout_not_blocked split: option.splits)






section \<open>The broadcast branch\<close>

text \<open>
  C1, as the code has it. A broadcast step first saves the message (the table afterwards
  is the one \<^verbatim>\<open>SaveMessage\<close> leaves). When the save reports success, delivery is then
  attempted to every client that is a key of \<^verbatim>\<open>h.clients\<close> at that moment; when it
  reports an error, the step ends there and no client, mailbox or membership changes.
  In a state that satisfies the invariant the step neither panics nor blocks.
\<close>

theorem broadcast_persists_then_fans_out_when_saved:
  assumes "hub_inv s" and "distinct order" and "set order = dom (clients s)"
  shows "\<exists>s'. Run_broadcast s message ex order = Inr s' \<and>
           table s' = snd (SaveMessage (table s) message ex) \<and>
           (if fst (SaveMessage (table s) message ex) = None
            then \<forall>c\<in>dom (clients s). fanned_to s s' c message
            else \<forall>c. untouched s s' c)"
proof -
  from Run_broadcast_effect[OF assms, of message ex] obtain s' where s':
    "Run_broadcast s message ex order = Inr s'"
    "table s' = snd (SaveMessage (table s) message ex)"
    "\<And>c. if fst (SaveMessage (table s) message ex) = None \<and> c \<in> dom (clients s)
          then fanned_to s s' c message else untouched s s' c" by blast
  have "if fst (SaveMessage (table s) message ex) = None
        then \<forall>c\<in>dom (clients s). fanned_to s s' c message
        else \<forall>c. untouched s s' c"
  proof (cases "fst (SaveMessage (table s) message ex) = None")
    case True
    then show ?thesis using s'(3) by auto
  next
    case False
    then have "untouched s s' c" for c using s'(3)[of c] by simp
    with False show ?thesis by auto
  qed
  with s'(1,2) show ?thesis by blast
qed

text \<open>The theorem at one connected client and a save that succeeds.\<close>

theorem broadcast_persists_then_fans_out_when_saved_witness:
  "hub_inv one_client \<and> distinct [0::nat] \<and> set [0] = dom (clients one_client) \<and>
   (\<exists>s'. Run_broadcast one_client msg1 (RowsAffected 1) [0] = Inr s' \<and>
         table s' = [to_row msg1] \<and> fanned_to one_client s' 0 msg1)"
proof -
  have d: "set [0] = dom (clients one_client)" by (simp add: one_client_dom)
  have sv: "SaveMessage (table one_client) msg1 (RowsAffected 1) = (None, [to_row msg1])"
    by (simp add: SaveMessage_def repo_SaveMessage_def one_client_def)
  from broadcast_persists_then_fans_out_when_saved[OF one_client_inv _ d, of msg1 "RowsAffected 1"]
  show ?thesis using one_client_inv d by (auto simp: sv one_client_dom)
qed

text \<open>
  C1 as the specification states it asks for a delivery attempt whether or not the save
  succeeded. With one connected client and a save that fails, the step leaves the state
  as it was: nothing is queued for the client and the client stays a member.
\<close>

theorem failed_save_skips_fanout_counterexample:
  "exec (NewHub []) [Connect 0 ''u1'' RowsOk] = Inr one_client \<and>
   clients one_client 0 = Some True \<and>
   Run_broadcast one_client msg1 ExecError [0] = Inr one_client \<and>
   \<not> fanned_to one_client one_client 0 msg1"
proof -
  have "Run_broadcast one_client msg1 ExecError [0] = Inr one_client"
    by (simp add: Run_broadcast_def SaveMessage_def repo_SaveMessage_def one_client_def)
  moreover have "\<not> fanned_to one_client one_client 0 msg1"
    by (simp add: fanned_to_def one_client_def has_room_def make_chan_def)
  moreover have "clients one_client 0 = Some True" by (simp add: one_client_def)
  ultimately show ?thesis using one_client_reached by simp
qed

text \<open>
  C2. When the save returns an error, no mailbox, no membership and no record of
  delivery changes. When the save succeeds, every member whose mailbox has room gets the
  message at the end of its mailbox and stays a member, and every member whose mailbox
  is full is removed from \<^verbatim>\<open>h.clients\<close> and gets nothing.
\<close>

theorem failed_save_reaches_nobody_saved_message_reaches_members:
  assumes "hub_inv s" and "distinct order" and "set order = dom (clients s)"
  shows "\<exists>s'. Run_broadcast s message ex order = Inr s' \<and>
           (fst (SaveMessage (table s) message ex) \<noteq> None \<longrightarrow>
              heap s' = heap s \<and> clients s' = clients s \<and> delivered s' = delivered s) \<and>
           (fst (SaveMessage (table s) message ex) = None \<longrightarrow>
              (\<forall>c cl. clients s c \<noteq> None \<and> heap s c = Some cl \<longrightarrow>
                 (if has_room (send cl)
                  then heap s' c = Some (cl\<lparr>send := (send cl)\<lparr>buf := buf (send cl) @ [message]\<rparr>\<rparr>) \<and>
                       clients s' c = clients s c \<and>
                       delivered s' c = delivered s c @ [Fanned message]
                  else clients s' c = None \<and> delivered s' c = delivered s c)))"
proof -
  from Run_broadcast_effect[OF assms, of message ex] obtain s' where s':
    "Run_broadcast s message ex order = Inr s'"
    "\<And>c. if fst (SaveMessage (table s) message ex) = None \<and> c \<in> dom (clients s)
          then fanned_to s s' c message else untouched s s' c" by blast
  have a: "heap s' = heap s \<and> clients s' = clients s \<and> delivered s' = delivered s"
    if "fst (SaveMessage (table s) message ex) \<noteq> None"
  proof -
    from that s'(2) have "untouched s s' c" for c by (simp split: if_splits)
    then show ?thesis by (auto simp: untouched_def fun_eq_iff)
  qed
  have b: "if has_room (send cl)
           then heap s' c = Some (cl\<lparr>send := (send cl)\<lparr>buf := buf (send cl) @ [message]\<rparr>\<rparr>) \<and>
                clients s' c = clients s c \<and>
                delivered s' c = delivered s c @ [Fanned message]
           else clients s' c = None \<and> delivered s' c = delivered s c"
    if "fst (SaveMessage (table s) message ex) = None" "clients s c \<noteq> None" "heap s c = Some cl"
    for c cl
  proof -
    from that s'(2)[of c] have "fanned_to s s' c message" by (auto simp: dom_def)
    with that(3) show ?thesis by (auto simp: fanned_to_def)
  qed
  from s'(1) a b show ?thesis by blast
qed

text \<open>The theorem at one connected client, for a save that fails and for one that succeeds.\<close>

theorem failed_save_reaches_nobody_saved_message_reaches_members_witness:
  "hub_inv one_client \<and> distinct [0::nat] \<and> set [0] = dom (clients one_client) \<and>
   (\<exists>s'. Run_broadcast one_client msg1 ExecError [0] = Inr s' \<and>
         heap s' = heap one_client \<and> clients s' = clients one_client \<and>
         delivered s' = delivered one_client) \<and>
   (\<exists>s'. Run_broadcast one_client msg1 (RowsAffected 1) [0] = Inr s' \<and>
         heap s' 0 = Some \<lparr>send = \<lparr>buf = [msg1], cap = 256, closed = False\<rparr>, userID = ''u1''\<rparr> \<and>
         clients s' 0 = Some True \<and> delivered s' 0 = [Fanned msg1])"
proof -
  have d: "set [0] = dom (clients one_client)" by (simp add: one_client_dom)
  have sv: "SaveMessage (table one_client) msg1 (RowsAffected 1) = (None, [to_row msg1])"
    by (simp add: SaveMessage_def repo_SaveMessage_def one_client_def)
  have sf: "SaveMessage (table one_client) msg1 ExecError = (Some ExecFailed, [])"
    by (simp add: SaveMessage_def repo_SaveMessage_def one_client_def)
  have h: "heap one_client 0 = Some \<lparr>send = make_chan 256, userID = ''u1''\<rparr>"
    "clients one_client 0 = Some True" "delivered one_client 0 = []"
    by (simp_all add: one_client_def)
  have room: "has_room (make_chan 256)" by (simp add: has_room_def make_chan_def)
  from failed_save_reaches_nobody_saved_message_reaches_members
    [OF one_client_inv _ d, of msg1 ExecError]
  have a: "\<exists>s'. Run_broadcast one_client msg1 ExecError [0] = Inr s' \<and>
         heap s' = heap one_client \<and> clients s' = clients one_client \<and>
         delivered s' = delivered one_client"
    by (simp add: sf)
  from failed_save_reaches_nobody_saved_message_reaches_members
    [OF one_client_inv _ d, of msg1 "RowsAffected 1"]
  obtain s' where s': "Run_broadcast one_client msg1 (RowsAffected 1) [0] = Inr s'"
    "\<forall>c cl. clients one_client c \<noteq> None \<and> heap one_client c = Some cl \<longrightarrow>
                 (if has_room (send cl)
                  then heap s' c = Some (cl\<lparr>send := (send cl)\<lparr>buf := buf (send cl) @ [msg1]\<rparr>\<rparr>) \<and>
                       clients s' c = clients one_client c \<and>
                       delivered s' c = delivered one_client c @ [Fanned msg1]
                  else clients s' c = None \<and> delivered s' c = delivered one_client c)"
    by (auto simp: sv)
  from s'(2)[rule_format, of 0 "\<lparr>send = make_chan 256, userID = ''u1''\<rparr>"] h room
  have "heap s' 0 = Some \<lparr>send = \<lparr>buf = [msg1], cap = 256, closed = False\<rparr>, userID = ''u1''\<rparr> \<and>
         clients s' 0 = Some True \<and> delivered s' 0 = [Fanned msg1]"
    by (simp add: make_chan_def)
  with s'(1) a one_client_inv d show ?thesis by auto
qed

text \<open>
  C3. Delivery in a broadcast step is the non-blocking send: no broadcast step, in any
  state, waits for a receiver. In the fan-out (the step whose save succeeded), every
  member whose mailbox is full at that moment is removed from \<^verbatim>\<open>h.clients\<close> and its
  channel is closed in that step, with nothing queued for it. From then on, whatever
  happens (connections, unregistrations, broadcasts, receives of any \<^verbatim>\<open>writePump\<close>), the
  loop neither panics nor blocks, the client stays out of \<^verbatim>\<open>h.clients\<close> and nothing
  more is sent on its channel.
\<close>

theorem full_mailbox_member_is_evicted_and_closed:
  assumes "hub_inv s" and "distinct order" and "set order = dom (clients s)"
  shows "(\<forall>s0 order0. Run_broadcast s0 message ex order0 \<noteq> Inl Blocked) \<and>
         (fst (SaveMessage (table s) message ex) = None \<longrightarrow>
            (\<forall>c cl. clients s c \<noteq> None \<and> heap s c = Some cl \<and> \<not> has_room (send cl) \<longrightarrow>
               (\<exists>s'. Run_broadcast s message ex order = Inr s' \<and>
                  clients s' c = None \<and>
                  heap s' c = Some (cl\<lparr>send := (send cl)\<lparr>closed := True\<rparr>\<rparr>) \<and>
                  delivered s' c = delivered s c \<and>
                  (\<forall>es. admissible s' es \<longrightarrow>
                     (\<exists>s''. exec s' es = Inr s'' \<and> clients s'' c = None \<and>
                            delivered s'' c = delivered s c)))))"
proof -
  have main: "\<exists>s'. Run_broadcast s message ex order = Inr s' \<and>
                  clients s' c = None \<and>
                  heap s' c = Some (cl\<lparr>send := (send cl)\<lparr>closed := True\<rparr>\<rparr>) \<and>
                  delivered s' c = delivered s c \<and>
                  (\<forall>es. admissible s' es \<longrightarrow>
                     (\<exists>s''. exec s' es = Inr s'' \<and> clients s'' c = None \<and>
                            delivered s'' c = delivered s c))"
    if sv: "fst (SaveMessage (table s) message ex) = None"
      and mem: "clients s c \<noteq> None" and h: "heap s c = Some cl" and full: "\<not> has_room (send cl)"
    for c cl
  proof -
    from Run_broadcast_effect[OF assms(1-3), of message ex] obtain s' where s':
      "Run_broadcast s message ex order = Inr s'" "hub_inv s'"
      "\<And>c. if fst (SaveMessage (table s) message ex) = None \<and> c \<in> dom (clients s)
            then fanned_to s s' c message else untouched s s' c" by blast
    from s'(3)[of c] sv mem have "fanned_to s s' c message" by (auto simp: dom_def)
    with h full have ev: "clients s' c = None"
      "heap s' c = Some (cl\<lparr>send := (send cl)\<lparr>closed := True\<rparr>\<rparr>)"
      "delivered s' c = delivered s c"
      by (simp_all add: fanned_to_def)
    have later: "\<exists>s''. exec s' es = Inr s'' \<and> clients s'' c = None \<and> delivered s'' c = delivered s c"
      if adm: "admissible s' es" for es
    proof -
      from exec_inv[OF s'(2) adm] obtain s'' where s'': "exec s' es = Inr s''" by blast
      have "heap s' c \<noteq> None" using ev(2) by simp
      from exec_non_member[OF s'(2) adm s'' this ev(1)] ev(3) s'' show ?thesis by simp
    qed
    from s'(1) ev later show ?thesis by auto
  qed
  have nb: "\<forall>s0 order0. Run_broadcast s0 message ex order0 \<noteq> Inl Blocked"
    by (simp add: Run_broadcast_not_blocked)
  from nb main show ?thesis by blast
qed

text \<open>
  The theorem at a client whose mailbox holds 256 messages, followed by a late
  unregistration of that client and a receive of its \<^verbatim>\<open>writePump\<close>.
\<close>

theorem full_mailbox_member_is_evicted_and_closed_witness:
  "hub_inv full_client \<and> distinct [0::nat] \<and> set [0] = dom (clients full_client) \<and>
   fst (SaveMessage (table full_client) msg2 (RowsAffected 1)) = None \<and>
   clients full_client 0 \<noteq> None \<and>
   heap full_client 0 =
     Some \<lparr>send = \<lparr>buf = replicate 256 msg1, cap = 256, closed = False\<rparr>, userID = ''u1''\<rparr> \<and>
   \<not> has_room \<lparr>buf = replicate 256 msg1, cap = 256, closed = False\<rparr> \<and>
   (\<exists>s'. Run_broadcast full_client msg2 (RowsAffected 1) [0] = Inr s' \<and>
         clients s' 0 = None \<and>
         heap s' 0 =
           Some \<lparr>send = \<lparr>buf = replicate 256 msg1, cap = 256, closed = True\<rparr>, userID = ''u1''\<rparr> \<and>
         delivered s' 0 = [] \<and>
         admissible s' [Unregister 0, Drain 0] \<and>
         (\<exists>s''. exec s' [Unregister 0, Drain 0] = Inr s'' \<and> clients s'' 0 = None \<and>
                delivered s'' 0 = []))"
proof -
  have d: "set [0] = dom (clients full_client)" by (simp add: full_client_dom)
  have sv: "fst (SaveMessage (table full_client) msg2 (RowsAffected 1)) = None"
    by (simp add: SaveMessage_def repo_SaveMessage_def)
  have m: "clients full_client 0 \<noteq> None" by (simp add: full_client_def)
  have h: "heap full_client 0 =
     Some \<lparr>send = \<lparr>buf = replicate 256 msg1, cap = 256, closed = False\<rparr>, userID = ''u1''\<rparr>"
    by (simp add: full_client_def)
  have nr: "\<not> has_room (send \<lparr>send = \<lparr>buf = replicate 256 msg1, cap = 256, closed = False\<rparr>, userID = ''u1''\<rparr>)"
    by (simp add: has_room_def)
  have dl: "delivered full_client 0 = []" by (simp add: full_client_def)
  have pre: "clients full_client 0 \<noteq> None \<and>
     heap full_client 0 =
       Some \<lparr>send = \<lparr>buf = replicate 256 msg1, cap = 256, closed = False\<rparr>, userID = ''u1''\<rparr> \<and>
     \<not> has_room (send \<lparr>send = \<lparr>buf = replicate 256 msg1, cap = 256, closed = False\<rparr>, userID = ''u1''\<rparr>)"
    using m h nr by simp
  have dd: "distinct [0::nat]" by simp
  from full_mailbox_member_is_evicted_and_closed
    [OF full_client_inv dd d, of msg2 "RowsAffected 1", THEN conjunct2, rule_format, OF sv pre]
  obtain s' where s': "Run_broadcast full_client msg2 (RowsAffected 1) [0] = Inr s'"
    "clients s' 0 = None"
    "heap s' 0 = Some \<lparr>send = \<lparr>buf = replicate 256 msg1, cap = 256, closed = True\<rparr>, userID = ''u1''\<rparr>"
    "delivered s' 0 = []"
    "\<forall>es. admissible s' es \<longrightarrow>
               (\<exists>s''. exec s' es = Inr s'' \<and> clients s'' 0 = None \<and> delivered s'' 0 = [])"
    by (auto simp: dl)
  have adm: "admissible s' [Unregister 0, Drain 0]"
    using s'(2) by (simp add: Run_unregister_non_member)
  from s'(5)[rule_format, OF adm] s' adm full_client_inv d sv m h nr
  show ?thesis by (auto simp: has_room_def)
qed

section \<open>Order of delivery\<close>

text \<open>
  C4, as the code has it. The loop handles the events of a run one after the other. What
  a mailbox gets from the broadcast branch is a subsequence of the messages that arrived
  on \<^verbatim>\<open>h.broadcast\<close>, in arrival order; so when those messages are pairwise different,
  no two messages are fanned out to one mailbox in one order and to another mailbox in
  the other order. The messages replayed from the store at registration are not covered.
\<close>

theorem fanout_deliveries_follow_arrival_order:
  assumes "admissible (NewHub t) es" and "exec (NewHub t) es = Inr s"
  shows "subseq (fanned_of (delivered s c)) (broadcasts es) \<and>
         (distinct (broadcasts es) \<longrightarrow>
            \<not> (subseq [m1, m2] (fanned_of (delivered s c1)) \<and>
               subseq [m2, m1] (fanned_of (delivered s c2))))"
proof -
  have sub: "subseq (fanned_of (delivered s c')) (broadcasts es)" for c'
    using exec_delivered[OF hub_inv_NewHub assms, of c'] by (auto simp: delivered_NewHub)
  have "False" if d: "distinct (broadcasts es)"
    and a: "subseq [m1, m2] (fanned_of (delivered s c1))"
    and b: "subseq [m2, m1] (fanned_of (delivered s c2))"
  proof -
    from a sub[of c1] have 1: "subseq [m1, m2] (broadcasts es)" by (rule subseq_order.trans)
    from b sub[of c2] have 2: "subseq [m2, m1] (broadcasts es)" by (rule subseq_order.trans)
    from subseq_pair_distinct[OF d 1 2] show False .
  qed
  with sub[of c] show ?thesis by blast
qed

text \<open>
  C4 as the specification states it speaks of every pair of messages delivered to two
  mailboxes. In the run \<open>reorder_run\<close> the first client gets \<open>msg1\<close> before \<open>msg2\<close>
  from the broadcast branch, and the second client, which connects afterwards, gets the
  same two messages from the replay of the store in the order \<open>msg2\<close>, \<open>msg1\<close>.
\<close>

theorem history_replay_reverses_order_counterexample:
  "admissible (NewHub []) reorder_run \<and>
   received (exec (NewHub []) reorder_run) 0 = [msg1, msg2] \<and>
   received (exec (NewHub []) reorder_run) 1 = [msg2, msg1] \<and>
   msg1 \<noteq> msg2"
  using run_admissible by (simp add: run_result received_def two_clients_def msg1_def msg2_def)

text \<open>The theorem at the same run.\<close>

theorem fanout_deliveries_follow_arrival_order_witness:
  "admissible (NewHub []) reorder_run \<and> exec (NewHub []) reorder_run = Inr two_clients \<and>
   subseq (fanned_of (delivered two_clients 0)) (broadcasts reorder_run) \<and>
   distinct (broadcasts reorder_run) \<and>
   fanned_of (delivered two_clients 0) = [msg1, msg2] \<and> fanned_of (delivered two_clients 1) = [] \<and>
   \<not> (subseq [msg1, msg2] (fanned_of (delivered two_clients 0)) \<and>
      subseq [msg2, msg1] (fanned_of (delivered two_clients 1)))"
proof -
  have d: "distinct (broadcasts reorder_run)"
    by (simp add: broadcasts_def reorder_run_def msg1_def msg2_def)
  have f: "fanned_of (delivered two_clients 0) = [msg1, msg2]" "fanned_of (delivered two_clients 1) = []"
    by (simp_all add: two_clients_def)
  from fanout_deliveries_follow_arrival_order[OF run_admissible run_result, of 0 msg1 msg2 0 1] d f
  show ?thesis using run_admissible run_result by simp
qed

section \<open>Registration\<close>






section \<open>Unregistration and closing\<close>

text \<open>
  C6. Unregistering a client that is not a key of \<^verbatim>\<open>h.clients\<close> returns the state
  unchanged. Unregistering is idempotent: after one unregistration a second one changes
  nothing. In a state that satisfies the invariant the branch never fails; it leaves the
  client out of \<^verbatim>\<open>h.clients\<close>, with its channel closed when it was a member, and it
  touches no other client.
\<close>

theorem unregister_is_idempotent:
  "(clients s c = None \<longrightarrow> Run_unregister s c = Inr s) \<and>
   (\<forall>s'. Run_unregister s c = Inr s' \<longrightarrow> Run_unregister s' c = Inr s') \<and>
   (hub_inv s \<longrightarrow>
      (\<exists>s'. Run_unregister s c = Inr s' \<and> clients s' c = None \<and>
         (clients s c \<noteq> None \<longrightarrow> (\<exists>cl. heap s' c = Some cl \<and> closed (send cl))) \<and>
         (\<forall>c'. c' \<noteq> c \<longrightarrow> untouched s s' c')))"
proof -
  have a: "clients s c = None \<longrightarrow> Run_unregister s c = Inr s"
    by (simp add: Run_unregister_non_member)
  have b: "\<forall>s'. Run_unregister s c = Inr s' \<longrightarrow> Run_unregister s' c = Inr s'"
    using Run_unregister_removes Run_unregister_non_member by blast
  have c: "\<exists>s'. Run_unregister s c = Inr s' \<and> clients s' c = None \<and>
         (clients s c \<noteq> None \<longrightarrow> (\<exists>cl. heap s' c = Some cl \<and> closed (send cl))) \<and>
         (\<forall>c'. c' \<noteq> c \<longrightarrow> untouched s s' c')" if inv: "hub_inv s"
  proof (cases "clients s c")
    case None
    then show ?thesis by (simp add: Run_unregister_non_member untouched_def)
  next
    case (Some b)
    with inv obtain cl where cl: "heap s c = Some cl" "\<not> closed (send cl)"
      by (auto simp: hub_inv_def)
    show ?thesis unfolding Run_unregister_member[OF Some cl] by (simp add: untouched_def)
  qed
  from a b c show ?thesis by blast
qed

text \<open>
  The theorem at one connected client: unregistered once, unregistered again, and the
  unregistration of a client that never registered.
\<close>

theorem unregister_is_idempotent_witness:
  "hub_inv one_client \<and> clients one_client 0 \<noteq> None \<and>
   Run_unregister one_client 0 = Inr closed_client \<and>
   clients closed_client 0 = None \<and>
   Run_unregister closed_client 0 = Inr closed_client \<and>
   clients one_client 1 = None \<and> Run_unregister one_client 1 = Inr one_client \<and>
   (\<exists>cl. heap closed_client 0 = Some cl \<and> closed (send cl))"
proof -
  have m: "clients one_client 0 \<noteq> None" "clients one_client 1 = None"
    by (simp_all add: one_client_def)
  have n: "clients closed_client 0 = None" by (simp add: closed_client_def)
  from unregister_is_idempotent[of one_client 0] one_client_inv m(1)
  have 1: "Run_unregister one_client 0 = Inr closed_client"
    "Run_unregister closed_client 0 = Inr closed_client"
    "\<exists>cl. heap closed_client 0 = Some cl \<and> closed (send cl)"
    by (auto simp: unregister_one_client)
  from unregister_is_idempotent[of one_client 1] m(2)
  have 2: "Run_unregister one_client 1 = Inr one_client" by blast
  from 1 2 m n one_client_inv show ?thesis by simp
qed

text \<open>
  C9. In the model, closing a closed channel is the fault \<open>CloseOfClosedChannel\<close>. No
  run from a new hub ends in it: every run returns a state, and in that state a client
  whose channel is closed is not a key of \<^verbatim>\<open>h.clients\<close>, so that an unregister event
  for it returns the state unchanged and closes nothing. A step that closes a channel
  closes the channel of a member and leaves that client out of \<^verbatim>\<open>h.clients\<close>.
\<close>

theorem mailbox_closed_at_most_once:
  assumes "admissible (NewHub t) es"
  shows "exec (NewHub t) es \<noteq> Inl CloseOfClosedChannel \<and>
         (\<exists>s. exec (NewHub t) es = Inr s \<and>
            (\<forall>c cl. heap s c = Some cl \<and> closed (send cl) \<longrightarrow>
               clients s c = None \<and> Run_unregister s c = Inr s) \<and>
            (\<forall>e s' c cl cl'.
               enabled s e \<and> step s e = Inr s' \<and>
               heap s c = Some cl \<and> \<not> closed (send cl) \<and>
               heap s' c = Some cl' \<and> closed (send cl') \<longrightarrow>
               clients s c \<noteq> None \<and> clients s' c = None))"
proof -
  from exec_inv[OF hub_inv_NewHub assms] obtain s where s: "exec (NewHub t) es = Inr s" "hub_inv s"
    by blast
  have a: "clients s c = None \<and> Run_unregister s c = Inr s"
    if "heap s c = Some cl" "closed (send cl)" for c cl
  proof -
    from s(2) that have "clients s c = None" by (auto simp: hub_inv_def)
    then show ?thesis by (simp add: Run_unregister_non_member)
  qed
  have b: "\<forall>e s' c cl cl'.
               enabled s e \<and> step s e = Inr s' \<and>
               heap s c = Some cl \<and> \<not> closed (send cl) \<and>
               heap s' c = Some cl' \<and> closed (send cl') \<longrightarrow>
               clients s c \<noteq> None \<and> clients s' c = None"
    using step_closes_members_only[OF s(2)] by blast
  from s(1) a b show ?thesis by auto
qed

text \<open>
  The theorem at a client that connects and is unregistered twice.
\<close>

theorem mailbox_closed_at_most_once_witness:
  "admissible (NewHub []) [Connect 0 ''u1'' RowsOk, Unregister 0, Unregister 0] \<and>
   exec (NewHub []) [Connect 0 ''u1'' RowsOk, Unregister 0, Unregister 0] = Inr closed_client \<and>
   heap closed_client 0 = Some \<lparr>send = \<lparr>buf = [], cap = 256, closed = True\<rparr>, userID = ''u1''\<rparr> \<and>
   clients closed_client 0 = None \<and> Run_unregister closed_client 0 = Inr closed_client"
proof -
  have h: "heap closed_client 0 = Some \<lparr>send = \<lparr>buf = [], cap = 256, closed = True\<rparr>, userID = ''u1''\<rparr>"
    by (simp add: closed_client_def)
  from mailbox_closed_at_most_once[OF admissible_twice_unregister]
  have "clients closed_client 0 = None \<and> Run_unregister closed_client 0 = Inr closed_client"
    unfolding exec_twice_unregister using h by auto
  with h admissible_twice_unregister exec_twice_unregister show ?thesis by simp
qed

section \<open>The inbound loop\<close>

text \<open>
  C7 asks that every message submitted to \<^verbatim>\<open>h.broadcast\<close> has a text of 1 to 1000
  characters, as the \<^verbatim>\<open>validate\<close> tags of the two structs declare. \<^verbatim>\<open>readPump\<close> runs
  no validation: for a decoded request with the empty text it submits a message with the
  empty text, which the broadcast branch saves and queues for the connected client.
\<close>

theorem readPump_submits_empty_text:
  "readPump c cl [Frame (ChatMessageRequest []) new_uuid now] =
     [ToBroadcast \<lparr>ID = new_uuid, UserID = userID cl, Text = [], CreatedAt = now\<rparr>] \<and>
   readPump 0 \<lparr>send = make_chan 256, userID = ''u1''\<rparr>
     [Frame (ChatMessageRequest []) ''m3'' 1700000003000000000] = [ToBroadcast empty_text_msg] \<and>
   length (Text empty_text_msg) = 0 \<and>
   Run_broadcast one_client empty_text_msg (RowsAffected 1) [0] =
     Inr (one_client\<lparr>table := [to_row empty_text_msg],
           heap := [0 \<mapsto> \<lparr>send = \<lparr>buf = [empty_text_msg], cap = 256, closed = False\<rparr>, userID = ''u1''\<rparr>],
           delivered := (\<lambda>c. [])(0 := [Fanned empty_text_msg])\<rparr>)"
  by (simp add: NewChatMessage_def empty_text_msg_def Run_broadcast_def SaveMessage_def
      repo_SaveMessage_def one_client_def deliver_def chan_try_send_def make_chan_def)

text \<open>
  C8. The messages \<^verbatim>\<open>readPump\<close> submits are, in order, one per request decoded before
  the first read error: the author is the \<^verbatim>\<open>userID\<close> of the client (the request has no
  part in it), the text is the text of the request, the id is the value
  \<^verbatim>\<open>uuid.New().String()\<close> returned for this message and the timestamp the value
  \<^verbatim>\<open>time.Now().UTC()\<close> returned for it. When the generated ids are pairwise different,
  so are the ids of the submitted messages.
\<close>

theorem readPump_builds_message_from_identity_and_payload:
  "map (\<lambda>m. (UserID m, Text m, ID m, CreatedAt m)) (submitted (readPump c cl ins)) =
     map (\<lambda>(req, new_uuid, now). (userID cl, req_Text req, new_uuid, now)) (frames_read ins) \<and>
   (distinct (map (\<lambda>(req, new_uuid, now). new_uuid) (frames_read ins)) \<longrightarrow>
      distinct (map ID (submitted (readPump c cl ins))))"
  by (simp add: readPump_fields readPump_ids)

text \<open>
  The theorem at two frames followed by a read error.
\<close>

theorem readPump_builds_message_from_identity_and_payload_witness:
  "distinct (map (\<lambda>(req, new_uuid, now). new_uuid)
     (frames_read [Frame (ChatMessageRequest ''hello'') ''m1'' 1700000001000000000,
                   Frame (ChatMessageRequest ''again'') ''m2'' 1700000002000000000,
                   ReadError])) \<and>
   submitted (readPump 0 \<lparr>send = make_chan 256, userID = ''u1''\<rparr>
     [Frame (ChatMessageRequest ''hello'') ''m1'' 1700000001000000000,
      Frame (ChatMessageRequest ''again'') ''m2'' 1700000002000000000,
      ReadError]) = [msg1, msg2] \<and>
   distinct (map ID [msg1, msg2])"
  using readPump_builds_message_from_identity_and_payload
    [of 0 "\<lparr>send = make_chan 256, userID = ''u1''\<rparr>"
        "[Frame (ChatMessageRequest ''hello'') ''m1'' 1700000001000000000,
          Frame (ChatMessageRequest ''again'') ''m2'' 1700000002000000000,
          ReadError]"]
  by (simp add: NewChatMessage_def msg1_def msg2_def)

end
